theory Spec2Isabelle
  imports Main "HOL-Library.Multiset"
begin

section \<open>The schema store\<close>

text \<open>
  The sanitizer \<^verbatim>\<open>sanitizeParametersForGemini\<close> (the module that
  \<^verbatim>\<open>src/utils/sanitize.test.ts\<close> imports) mutates a graph of schema objects in place.
  Objects are shared and may lie on cycles, so the graph is modelled as an explicit store:
  a list of objects, an object's identity being its index in the list.

  The \<^verbatim>\<open>Type\<close> enumeration and the \<^verbatim>\<open>Schema\<close> interface belong to the imported package
  \<^verbatim>\<open>@google/genai\<close>; the enumeration is written out with that package's members, and
  the interface with the properties that the sanitizer reads or writes, \<^verbatim>\<open>enum\<close>
  (which the tests use), and one field \<open>other\<close> holding every remaining property.
\<close>

type_synonym addr = nat

datatype Type = TYPE_UNSPECIFIED | STRING | NUMBER | INTEGER | BOOLEAN | ARRAY | OBJECT | NULL

datatype json = JNull | JBool bool | JNum int | JStr string | JArr "json list"
  | JObj "(string \<times> json) list"

text \<open>
  An optional property of a JavaScript object is in one of three states: the key is not
  there, the key is there and holds \<^verbatim>\<open>undefined\<close>, or the key holds a value. Reading
  the property gives \<^verbatim>\<open>undefined\<close> in the first two states.
\<close>

datatype 'a field = NoKey | Undefined | Value 'a

fun read :: "'a field \<Rightarrow> 'a option" where
  "read NoKey = None"
| "read Undefined = None"
| "read (Value x) = Some x"

text \<open>
  A slot of \<^verbatim>\<open>anyOf\<close>, \<^verbatim>\<open>items\<close> or \<^verbatim>\<open>properties\<close> holds a reference to a schema object or,
  as the \<^verbatim>\<open>typeof item !== 'boolean'\<close> tests of the source allow, a literal boolean.
\<close>

datatype schema_ref = Node addr | BoolSchema bool

text \<open>
  \<open>properties\<close> is an association list in the order in which \<^verbatim>\<open>Object.values\<close> lists
  the values.
\<close>

record Schema =
  type :: "Type field"
  format :: "string field"
  default :: "json field"
  anyOf :: "schema_ref list field"
  items :: "schema_ref field"
  properties :: "(string \<times> schema_ref) list field"
  enum' :: "string list field"
  other :: "(string \<times> json) list"

text \<open>
  The state of a call: the store, the \<^verbatim>\<open>visited\<close> set of the source, and a log
  \<open>entered\<close> that receives an object's address each time execution passes the guard of
  line 18 for it. The function never reads the log; it only serves to count how often
  an object is processed.
\<close>

record state =
  heap :: "Schema list"
  visited :: "addr set"
  entered :: "addr list"

section \<open>The sanitizer\<close>

text \<open>Line 21: \<^verbatim>\<open>visited.add(schema)\<close>; the log records the pass.\<close>

definition enter :: "addr \<Rightarrow> state \<Rightarrow> state" where
  "enter a s = s\<lparr>visited := insert a (visited s), entered := entered s @ [a]\<rparr>"

text \<open>Line 25: \<^verbatim>\<open>schema.default = undefined\<close>.\<close>

definition set_default :: "addr \<Rightarrow> state \<Rightarrow> state" where
  "set_default a s = s\<lparr>heap := (heap s)[a := (heap s ! a)\<lparr>default := Undefined\<rparr>]\<rparr>"

text \<open>Line 45: \<^verbatim>\<open>schema.format = undefined\<close>.\<close>

definition set_format :: "addr \<Rightarrow> state \<Rightarrow> state" where
  "set_format a s = s\<lparr>heap := (heap s)[a := (heap s ! a)\<lparr>format := Undefined\<rparr>]\<rparr>"

text \<open>The truth value of \<^verbatim>\<open>schema.format\<close> in a condition: a non-empty string.\<close>

definition truthy :: "string field \<Rightarrow> bool" where
  "truthy f = (case f of Value str \<Rightarrow> str \<noteq> [] | _ \<Rightarrow> False)"

text \<open>
  Lines 43 to 46:
  \<^verbatim>\<open>
  if (schema.type === Type.STRING) {
    if (!(schema.format && schema.format !== 'enum' && schema.format !== 'date-time')) return;
    schema.format = undefined;
  }
  \<close>
\<close>

definition sanitize_format :: "addr \<Rightarrow> state \<Rightarrow> state" where
  "sanitize_format a s =
     (if type (heap s ! a) = Value STRING then
        (if \<not> (truthy (format (heap s ! a)) \<and> format (heap s ! a) \<noteq> Value ''enum''
                \<and> format (heap s ! a) \<noteq> Value ''date-time'') then s
         else set_format a s)
      else s)"

text \<open>
  The function itself, with the three conditional blocks of its body (lines 23 to 31,
  32 to 34 and 35 to 41) and the \<^verbatim>\<open>for ... of\<close> loop that two of them run. Each block
  reads the object from the store as it is when the block starts. \<^verbatim>\<open>schema.anyOf\<close> and
  \<^verbatim>\<open>schema.properties\<close> are true in a condition when they hold an array or an object;
  \<^verbatim>\<open>schema.items\<close> holding a boolean fails one of the two tests of line 32.

  An address outside the store denotes no object. JavaScript has no such reference; the
  model treats it like the absent schema of line 18.

  The recursion ends because every call that passes the guard adds an object of the
  store to \<open>visited\<close>; the proof is in the section on termination below.
\<close>

function sanitizeParametersForGemini :: "state \<Rightarrow> addr option \<Rightarrow> state"
  and sanitize_anyOf :: "addr \<Rightarrow> state \<Rightarrow> state"
  and sanitize_items :: "addr \<Rightarrow> state \<Rightarrow> state"
  and sanitize_properties :: "addr \<Rightarrow> state \<Rightarrow> state"
  and sanitize_each :: "state \<Rightarrow> schema_ref list \<Rightarrow> state" where
  "sanitizeParametersForGemini s schema = (case schema of None \<Rightarrow> s | Some a \<Rightarrow>
     if a \<in> visited s \<or> length (heap s) \<le> a then s
     else sanitize_format a (sanitize_properties a (sanitize_items a
            (sanitize_anyOf a (enter a s)))))"
| "sanitize_anyOf a s = (case read (anyOf (heap s ! a)) of None \<Rightarrow> s
     | Some xs \<Rightarrow> sanitize_each (set_default a s) xs)"
| "sanitize_items a s = (case read (items (heap s ! a)) of None \<Rightarrow> s
     | Some x \<Rightarrow> (case x of BoolSchema b \<Rightarrow> s
         | Node c \<Rightarrow> sanitizeParametersForGemini s (Some c)))"
| "sanitize_properties a s = (case read (properties (heap s ! a)) of None \<Rightarrow> s
     | Some ps \<Rightarrow> sanitize_each s (map snd ps))"
| "sanitize_each s [] = s"
| "sanitize_each s (x # xs) = (case x of BoolSchema b \<Rightarrow> sanitize_each s xs
     | Node c \<Rightarrow> sanitize_each (sanitizeParametersForGemini s (Some c)) xs)"
  by pat_completeness auto

text \<open>
  A top-level call \<^verbatim>\<open>sanitizeParametersForGemini(schema)\<close>: the default argument is a
  fresh, empty set.
\<close>

definition fresh :: "Schema list \<Rightarrow> state" where
  "fresh h = \<lparr>heap = h, visited = {}, entered = []\<rparr>"

definition sanitize_call :: "Schema list \<Rightarrow> addr option \<Rightarrow> state" where
  "sanitize_call h schema = sanitizeParametersForGemini (fresh h) schema"

section \<open>The vocabulary of the specification\<close>

text \<open>
  One object after it has been sanitized, in the specification's words: \<open>default\<close> is
  cleared when \<open>anyOf\<close> is declared, and \<open>format\<close> is cleared on a STRING object when it is
  a non-empty string other than the two supported ones.
\<close>

definition unsupported :: "string field \<Rightarrow> bool" where
  "unsupported f = (case f of Value str \<Rightarrow> str \<noteq> [] \<and> str \<noteq> ''enum'' \<and> str \<noteq> ''date-time''
     | _ \<Rightarrow> False)"

definition sanitized :: "Schema \<Rightarrow> Schema" where
  "sanitized n = n\<lparr>
     format := (if type n = Value STRING \<and> unsupported (format n) then Undefined else format n),
     default := (if read (anyOf n) = None then default n else Undefined)\<rparr>"

text \<open>
  The references an object holds, in the order in which the function follows them; the
  addresses among them (a literal boolean is none); and the objects reachable from a set
  of roots \<open>R\<close> along references without passing through an object of \<open>v\<close> or leaving
  the store.
\<close>

definition the_list :: "'a list field \<Rightarrow> 'a list" where
  "the_list f = (case read f of None \<Rightarrow> [] | Some xs \<Rightarrow> xs)"

fun nodes :: "schema_ref list \<Rightarrow> addr list" where
  "nodes [] = []"
| "nodes (Node c # xs) = c # nodes xs"
| "nodes (BoolSchema b # xs) = nodes xs"

definition item_refs :: "Schema \<Rightarrow> schema_ref list" where
  "item_refs n = (case read (items n) of None \<Rightarrow> [] | Some x \<Rightarrow> [x])"

definition refs :: "Schema \<Rightarrow> schema_ref list" where
  "refs n = the_list (anyOf n) @ item_refs n @ map snd (the_list (properties n))"

definition children :: "Schema \<Rightarrow> addr list" where
  "children n = nodes (refs n)"

inductive_set reach :: "Schema list \<Rightarrow> addr set \<Rightarrow> addr set \<Rightarrow> addr set"
  for h :: "Schema list" and v :: "addr set" and R :: "addr set" where
  root: "r \<in> R \<Longrightarrow> r < length h \<Longrightarrow> r \<notin> v \<Longrightarrow> r \<in> reach h v R"
| step: "x \<in> reach h v R \<Longrightarrow> c \<in> set (children (h ! x)) \<Longrightarrow> c < length h \<Longrightarrow> c \<notin> v
    \<Longrightarrow> c \<in> reach h v R"

text \<open>
  Two objects that differ at most in \<open>default\<close> and \<open>format\<close>, and two stores of the same
  size whose objects do.
\<close>

definition frame :: "Schema \<Rightarrow> Schema \<Rightarrow> bool" where
  "frame n n' = (type n' = type n \<and> anyOf n' = anyOf n \<and> items n' = items n
     \<and> properties n' = properties n \<and> enum' n' = enum' n \<and> other n' = other n)"

definition same_graph :: "Schema list \<Rightarrow> Schema list \<Rightarrow> bool" where
  "same_graph h h' = (length h' = length h \<and> (\<forall>i<length h. frame (h ! i) (h' ! i)))"

text \<open>
  Two stores that differ only in the order in which the \<open>properties\<close> of their objects
  are listed, that is, in the iteration order of line 36.
\<close>

fun same_entries :: "(string \<times> schema_ref) list field \<Rightarrow> (string \<times> schema_ref) list field \<Rightarrow> bool"
  where
  "same_entries (Value ps) (Value qs) = (mset ps = mset qs)"
| "same_entries NoKey NoKey = True"
| "same_entries Undefined Undefined = True"
| "same_entries _ _ = False"

definition reordered :: "Schema list \<Rightarrow> Schema list \<Rightarrow> bool" where
  "reordered h h' = list_all2 (\<lambda>n n'. n' = n\<lparr>properties := properties n'\<rparr>
      \<and> same_entries (properties n) (properties n')) h h'"

text \<open>
  The empty object \<^verbatim>\<open>{}\<close>, and a store of six objects for the examples: an OBJECT whose
  properties refer to a STRING with format hostname, to the object itself, to an ARRAY
  and to a literal boolean; the ARRAY's items object declares \<open>anyOf\<close> (the STRING again,
  a literal boolean, and a NUMBER with format uuid) and a default; the last object, a
  STRING with format email, is referenced by none. \<open>example_state\<close> is a call state in
  which the ARRAY is already visited; \<open>example_reordered\<close> lists the properties of the
  first object in the opposite order.
\<close>

definition empty_schema :: Schema where
  "empty_schema = \<lparr>type = NoKey, format = NoKey, default = NoKey, anyOf = NoKey, items = NoKey,
     properties = NoKey, enum' = NoKey, other = []\<rparr>"

definition example_store :: "Schema list" where
  "example_store =
    [empty_schema\<lparr>type := Value OBJECT, properties := Value [(''name'', Node 1), (''self'', Node 0),
        (''tags'', Node 2), (''flag'', BoolSchema True)]\<rparr>,
     empty_schema\<lparr>type := Value STRING, format := Value ''hostname''\<rparr>,
     empty_schema\<lparr>type := Value ARRAY, items := Value (Node 3)\<rparr>,
     empty_schema\<lparr>anyOf := Value [Node 1, BoolSchema False, Node 4], default := Value (JStr ''x'')\<rparr>,
     empty_schema\<lparr>type := Value NUMBER, format := Value ''uuid''\<rparr>,
     empty_schema\<lparr>type := Value STRING, format := Value ''email''\<rparr>]"

definition example_state :: state where
  "example_state = \<lparr>heap = example_store, visited = {2}, entered = []\<rparr>"

definition example_reordered :: "Schema list" where
  "example_reordered = example_store[0 := (example_store ! 0)\<lparr>properties :=
     Value [(''flag'', BoolSchema True), (''tags'', Node 2), (''self'', Node 0), (''name'', Node 1)]\<rparr>]"

section \<open>Error outcomes\<close>

text \<open>
  The source has no \<^verbatim>\<open>throw\<close>, and on values of the types it declares none of its
  operations raises, so the function above has no error value. To state that a call
  completes, the same function is written once more with the two outcomes that remain
  possible: \<open>StackExhausted\<close>, when the calls nest deeper than the number of activations
  available (what unbounded recursion ends in), and \<open>NoObject\<close>, when an address outside
  the store is to be entered (a reference to no object, which a well-shaped store does not
  hold). \<open>run k\<close> is a call with \<open>k\<close> activations available: the call itself takes one, and
  the calls of lines 28, 33 and 38 run with the remaining ones; the blocks and loops of
  one activation share it.
\<close>

datatype error = StackExhausted | NoObject

definition and_then :: "error + 'a \<Rightarrow> ('a \<Rightarrow> error + 'b) \<Rightarrow> error + 'b" where
  "and_then m f = (case m of Inl e \<Rightarrow> Inl e | Inr x \<Rightarrow> f x)"

fun run :: "nat \<Rightarrow> state \<Rightarrow> addr option \<Rightarrow> error + state"
  and run_anyOf :: "nat \<Rightarrow> addr \<Rightarrow> state \<Rightarrow> error + state"
  and run_items :: "nat \<Rightarrow> addr \<Rightarrow> state \<Rightarrow> error + state"
  and run_properties :: "nat \<Rightarrow> addr \<Rightarrow> state \<Rightarrow> error + state"
  and run_each :: "nat \<Rightarrow> state \<Rightarrow> schema_ref list \<Rightarrow> error + state" where
  "run 0 s schema = Inl StackExhausted"
| "run (Suc k) s schema = (case schema of None \<Rightarrow> Inr s | Some a \<Rightarrow>
     if a \<in> visited s then Inr s
     else if length (heap s) \<le> a then Inl NoObject
     else and_then (run_anyOf k a (enter a s)) (\<lambda>s1.
          and_then (run_items k a s1) (\<lambda>s2.
          and_then (run_properties k a s2) (\<lambda>s3. Inr (sanitize_format a s3)))))"
| "run_anyOf k a s = (case read (anyOf (heap s ! a)) of None \<Rightarrow> Inr s
     | Some xs \<Rightarrow> run_each k (set_default a s) xs)"
| "run_items k a s = (case read (items (heap s ! a)) of None \<Rightarrow> Inr s
     | Some x \<Rightarrow> (case x of BoolSchema b \<Rightarrow> Inr s | Node c \<Rightarrow> run k s (Some c)))"
| "run_properties k a s = (case read (properties (heap s ! a)) of None \<Rightarrow> Inr s
     | Some ps \<Rightarrow> run_each k s (map snd ps))"
| "run_each k s [] = Inr s"
| "run_each k s (x # xs) = (case x of BoolSchema b \<Rightarrow> run_each k s xs
     | Node c \<Rightarrow> and_then (run k s (Some c)) (\<lambda>s'. run_each k s' xs))"

declare run_anyOf.simps [simp del]
declare run_items.simps [simp del]
declare run_properties.simps [simp del]

text \<open>
  A store is well shaped when every reference held in it is the address of one of its
  objects.
\<close>

definition well_shaped :: "Schema list \<Rightarrow> bool" where
  "well_shaped h = list_all (\<lambda>n. list_all (\<lambda>c. c < length h) (children n)) h"

section \<open>Invariants of the traversal\<close>

text \<open>
  \<open>grows s t\<close>: from \<open>s\<close> to \<open>t\<close> the store kept its size and \<open>visited\<close> lost nothing.
  \<open>unvisited\<close> counts the objects of the store that are not in \<open>visited\<close>.
\<close>

definition grows :: "state \<Rightarrow> state \<Rightarrow> bool" where
  "grows s t = (length (heap t) = length (heap s) \<and> visited s \<subseteq> visited t)"

definition unvisited :: "state \<Rightarrow> nat" where
  "unvisited s = card ({..<length (heap s)} - visited s)"

text \<open>
  \<open>effect s t\<close>: from state \<open>s\<close> to state \<open>t\<close> the store kept its size, \<open>visited\<close> grew,
  exactly the objects that joined \<open>visited\<close> were sanitized, and the log received each of
  them once. \<open>pre_default\<close> is the state in which the loop of line 26 starts.
\<close>

definition effect :: "state \<Rightarrow> state \<Rightarrow> bool" where
  "effect s t = (length (heap t) = length (heap s) \<and> visited s \<subseteq> visited t
     \<and> (\<forall>i<length (heap s). heap t ! i =
           (if i \<in> visited t - visited s then sanitized (heap s ! i) else heap s ! i))
     \<and> (\<exists>new. entered t = entered s @ new \<and> distinct new \<and> set new = visited t - visited s))"

definition pre_default :: "addr \<Rightarrow> state \<Rightarrow> state" where
  "pre_default a s = (if read (anyOf (heap s ! a)) = None then s else set_default a s)"

text \<open>
  \<open>trav R s t\<close>: a traversal from the roots \<open>R\<close> led from \<open>s\<close> to \<open>t\<close>. It changed no
  reference, visited every root, left every object it entered with all its successors
  visited, and entered only objects reachable from the roots outside \<open>visited s\<close>.
\<close>

definition trav :: "addr set \<Rightarrow> state \<Rightarrow> state \<Rightarrow> bool" where
  "trav R s t = (grows s t \<and> same_graph (heap s) (heap t)
     \<and> (\<forall>r\<in>R. r < length (heap s) \<longrightarrow> r \<in> visited t)
     \<and> (\<forall>x\<in>visited t - visited s. \<forall>c\<in>set (children (heap s ! x)).
           c < length (heap s) \<longrightarrow> c \<in> visited t)
     \<and> visited t - visited s \<subseteq> reach (heap s) (visited s) R)"

text \<open>
  \<open>ready k s\<close>: the store is well shaped and \<open>k\<close> exceeds the number of objects not yet
  visited.
\<close>

definition ready :: "nat \<Rightarrow> state \<Rightarrow> bool" where
  "ready k s = (well_shaped (heap s) \<and> unvisited s < k)"

section \<open>Termination\<close>

text \<open>
  Every call that passes the guard adds an object of the store to \<open>visited\<close>, and no call
  removes one or changes the size of the store. The recursion is nested (a loop continues
  in the state that a recursive call returned), so these two facts are first shown for
  every argument on which the function is defined.
\<close>

lemma grows_refl: "grows s s"
  by (simp add: grows_def)

lemma grows_trans: "grows s t \<Longrightarrow> grows t u \<Longrightarrow> grows s u"
  by (auto simp: grows_def)

lemma grows_enter: "grows s (enter a s)"
  by (auto simp: grows_def enter_def)

lemma grows_set_default: "grows s (set_default a s)"
  by (auto simp: grows_def set_default_def)

lemma grows_set_format: "grows s (set_format a s)"
  by (auto simp: grows_def set_format_def)

lemma grows_sanitize_format: "grows s (sanitize_format a s)"
  by (simp add: sanitize_format_def grows_refl grows_set_format)

lemma grows_partial:
  "sanitizeParametersForGemini_sanitize_anyOf_sanitize_items_sanitize_properties_sanitize_each_dom
     (Inl (Inl (s, r))) \<Longrightarrow> grows s (sanitizeParametersForGemini s r)"
  "sanitizeParametersForGemini_sanitize_anyOf_sanitize_items_sanitize_properties_sanitize_each_dom
     (Inl (Inr (a, s1))) \<Longrightarrow> grows s1 (sanitize_anyOf a s1)"
  "sanitizeParametersForGemini_sanitize_anyOf_sanitize_items_sanitize_properties_sanitize_each_dom
     (Inr (Inl (b, s2))) \<Longrightarrow> grows s2 (sanitize_items b s2)"
  "sanitizeParametersForGemini_sanitize_anyOf_sanitize_items_sanitize_properties_sanitize_each_dom
     (Inr (Inr (Inl (c, s3)))) \<Longrightarrow> grows s3 (sanitize_properties c s3)"
  "sanitizeParametersForGemini_sanitize_anyOf_sanitize_items_sanitize_properties_sanitize_each_dom
     (Inr (Inr (Inr (s4, xs)))) \<Longrightarrow> grows s4 (sanitize_each s4 xs)"
proof (induct rule:
    sanitizeParametersForGemini_sanitize_anyOf_sanitize_items_sanitize_properties_sanitize_each.pinduct)
  case (1 s r)
  show ?case
  proof (cases r)
    case None
    then show ?thesis
      using "1.hyps"(1) by (simp add: sanitizeParametersForGemini.psimps grows_refl)
  next
    case (Some a)
    show ?thesis
    proof (cases "a \<in> visited s \<or> length (heap s) \<le> a")
      case True
      then show ?thesis
        using "1.hyps"(1) Some by (simp add: sanitizeParametersForGemini.psimps grows_refl)
    next
      case False
      have "grows s (sanitize_properties a (sanitize_items a (sanitize_anyOf a (enter a s))))"
        using "1.hyps"(2-4)[OF Some False] grows_enter[of s a] by (blast intro: grows_trans)
      then have "grows s (sanitize_format a (sanitize_properties a (sanitize_items a
          (sanitize_anyOf a (enter a s)))))"
        using grows_sanitize_format by (blast intro: grows_trans)
      then show ?thesis
        using "1.hyps"(1) Some False by (simp add: sanitizeParametersForGemini.psimps)
    qed
  qed
next
  case (2 a s)
  then show ?case
    by (auto simp: sanitize_anyOf.psimps grows_refl split: option.splits
        intro: grows_trans[OF grows_set_default])
next
  case (3 a s)
  then show ?case
    by (auto simp: sanitize_items.psimps grows_refl split: option.splits schema_ref.splits)
next
  case (4 a s)
  then show ?case
    by (auto simp: sanitize_properties.psimps grows_refl split: option.splits)
next
  case (5 s)
  then show ?case
    by (simp add: sanitize_each.psimps grows_refl)
next
  case (6 s x xs)
  then show ?case
    by (auto simp: sanitize_each.psimps split: schema_ref.splits intro: grows_trans)
qed

lemma unvisited_grows: "grows s t \<Longrightarrow> unvisited t \<le> unvisited s"
  unfolding unvisited_def grows_def by (auto intro!: card_mono)

lemma unvisited_enter:
  assumes "a \<notin> visited s" "a < length (heap s)"
  shows "unvisited (enter a s) < unvisited s"
proof -
  have "{..<length (heap s)} - insert a (visited s) \<subset> {..<length (heap s)} - visited s"
    using assms by auto
  then show ?thesis
    unfolding unvisited_def enter_def by (simp add: psubset_card_mono)
qed

lemma unvisited_set_default: "unvisited (set_default a s) = unvisited s"
  by (simp add: unvisited_def set_default_def)

termination sanitizeParametersForGemini
proof (relation "inv_image (less_than <*lex*> less_than <*lex*> less_than)
     (\<lambda>x. case x of
        Inl (Inl (s, r)) \<Rightarrow> (unvisited s, 0::nat, 0::nat)
      | Inl (Inr (a, s)) \<Rightarrow> (unvisited s, 2, 0)
      | Inr (Inl (a, s)) \<Rightarrow> (unvisited s, 2, 0)
      | Inr (Inr (Inl (a, s))) \<Rightarrow> (unvisited s, 2, 0)
      | Inr (Inr (Inr (s, xs))) \<Rightarrow> (unvisited s, 1, length xs))", goal_cases)
  case 1
  show ?case
    by (intro wf_inv_image wf_lex_prod wf_less_than)
next
  case (2 s r a)
  then show ?case
    by (simp add: unvisited_enter)
next
  case (3 s r a)
  then have "unvisited (enter a s) < unvisited s"
    by (simp add: unvisited_enter)
  moreover have "unvisited (sanitize_anyOf a (enter a s)) \<le> unvisited (enter a s)"
    using 3 by (simp add: unvisited_grows grows_partial)
  ultimately show ?case
    by simp
next
  case (4 s r a)
  then have "unvisited (enter a s) < unvisited s"
    by (simp add: unvisited_enter)
  moreover have "unvisited (sanitize_anyOf a (enter a s)) \<le> unvisited (enter a s)"
    using 4 by (simp add: unvisited_grows grows_partial)
  moreover have "unvisited (sanitize_items a (sanitize_anyOf a (enter a s)))
      \<le> unvisited (sanitize_anyOf a (enter a s))"
    using 4 by (simp add: unvisited_grows grows_partial)
  ultimately show ?case
    by simp
next
  case 5
  then show ?case
    by (simp add: unvisited_set_default)
next
  case 6
  then show ?case
    by simp
next
  case 7
  then show ?case
    by simp
next
  case 8
  then show ?case
    by simp
next
  case (9 s x xs c)
  then have "unvisited (sanitizeParametersForGemini s (Some c)) \<le> unvisited s"
    by (simp add: unvisited_grows grows_partial)
  then show ?case
    by auto
next
  case 10
  then show ?case
    by simp
qed

declare sanitizeParametersForGemini.simps [simp del]
declare sanitize_anyOf.simps [simp del]
declare sanitize_items.simps [simp del]
declare sanitize_properties.simps [simp del]

lemmas sanitize_induct =
  sanitizeParametersForGemini_sanitize_anyOf_sanitize_items_sanitize_properties_sanitize_each.induct

section \<open>Properties of the traversal\<close>

lemma effect_refl: "effect s s"
  by (simp add: effect_def)

lemma effect_trans:
  assumes "effect s t" "effect t u"
  shows "effect s u"
proof -
  from assms obtain n1 n2 where
    n1: "entered t = entered s @ n1" "distinct n1" "set n1 = visited t - visited s" and
    n2: "entered u = entered t @ n2" "distinct n2" "set n2 = visited u - visited t"
    unfolding effect_def by blast
  have sub: "visited s \<subseteq> visited t" "visited t \<subseteq> visited u"
    and len: "length (heap t) = length (heap s)" "length (heap u) = length (heap t)"
    using assms unfolding effect_def by auto
  have "entered u = entered s @ (n1 @ n2)" "distinct (n1 @ n2)"
     "set (n1 @ n2) = visited u - visited s"
    using n1 n2 sub by auto
  then have log: "\<exists>new. entered u = entered s @ new \<and> distinct new
      \<and> set new = visited u - visited s"
    by blast
  have nodes: "heap u ! i =
      (if i \<in> visited u - visited s then sanitized (heap s ! i) else heap s ! i)"
    if "i < length (heap s)" for i
  proof -
    have 1: "heap t ! i =
      (if i \<in> visited t - visited s then sanitized (heap s ! i) else heap s ! i)"
      using assms(1) that unfolding effect_def by blast
    have 2: "heap u ! i =
      (if i \<in> visited u - visited t then sanitized (heap t ! i) else heap t ! i)"
      using assms(2) that len unfolding effect_def by simp
    show ?thesis using 1 2 sub by auto
  qed
  show ?thesis
    unfolding effect_def using sub len log nodes by auto
qed

lemma truthy_unsupported:
  "(truthy f \<and> f \<noteq> Value ''enum'' \<and> f \<noteq> Value ''date-time'') = unsupported f"
  by (cases f) (auto simp: truthy_def unsupported_def)

lemma effect_node:
  assumes a: "a \<notin> visited s" "a < length (heap s)"
    and e: "effect (pre_default a (enter a s)) u"
  shows "effect s (sanitize_format a u)"
proof -
  let ?p = "pre_default a (enter a s)"
  have vp: "visited ?p = insert a (visited s)" and lp: "length (heap ?p) = length (heap s)"
    and ep: "entered ?p = entered s @ [a]"
    by (simp_all add: pre_default_def enter_def set_default_def)
  have hp: "heap ?p ! i = (if i = a \<and> read (anyOf (heap s ! a)) \<noteq> None
      then (heap s ! a)\<lparr>default := Undefined\<rparr> else heap s ! i)" if "i < length (heap s)" for i
    using that by (auto simp add: pre_default_def enter_def set_default_def)
  from e obtain new where new: "entered u = entered ?p @ new" "distinct new"
      "set new = visited u - visited ?p"
    unfolding effect_def by blast
  have sub: "visited ?p \<subseteq> visited u" and len: "length (heap u) = length (heap s)"
    using e lp unfolding effect_def by auto
  have hu: "heap u ! i =
      (if i \<in> visited u - visited ?p then sanitized (heap ?p ! i) else heap ?p ! i)"
    if "i < length (heap s)" for i
    using e that lp unfolding effect_def by simp
  let ?t = "sanitize_format a u"
  have vt: "visited ?t = visited u" and et: "entered ?t = entered u"
    and lt: "length (heap ?t) = length (heap u)"
    by (simp_all add: sanitize_format_def set_format_def)
  have ua: "heap u ! a = heap ?p ! a"
    using hu[OF a(2)] vp by simp
  have ht: "heap ?t ! i = (if i = a then sanitized (heap s ! a) else heap u ! i)"
    if "i < length (heap s)" for i
  proof (cases "i = a")
    case True
    show ?thesis
      using a(2) len ua hp[OF a(2)] True
      by (auto simp: sanitize_format_def set_format_def truthy_unsupported sanitized_def)
  next
    case False
    then show ?thesis
      by (simp add: sanitize_format_def set_format_def)
  qed
  have nodes: "\<forall>i<length (heap s). heap ?t ! i =
      (if i \<in> visited ?t - visited s then sanitized (heap s ! i) else heap s ! i)"
  proof (intro allI impI)
    fix i assume i: "i < length (heap s)"
    show "heap ?t ! i =
      (if i \<in> visited ?t - visited s then sanitized (heap s ! i) else heap s ! i)"
    proof (cases "i = a")
      case True
      then show ?thesis using ht[OF i] a sub vp vt by auto
    next
      case False
      then show ?thesis using ht[OF i] hu[OF i] hp[OF i] vp vt by auto
    qed
  qed
  have "entered ?t = entered s @ (a # new)" "distinct (a # new)"
    "set (a # new) = visited ?t - visited s"
    using new ep vp vt et sub a by auto
  then have log: "\<exists>new. entered ?t = entered s @ new \<and> distinct new
      \<and> set new = visited ?t - visited s"
    by blast
  show ?thesis
    unfolding effect_def using nodes log sub vp vt lt len by auto
qed

lemma effect_all:
  "effect s (sanitizeParametersForGemini s r)"
  "effect (pre_default a s1) (sanitize_anyOf a s1)"
  "effect s2 (sanitize_items b s2)"
  "effect s3 (sanitize_properties c s3)"
  "effect s4 (sanitize_each s4 xs)"
proof (induct s r and a s1 and b s2 and c s3 and s4 xs rule: sanitize_induct)
  case (1 s r)
  show ?case
  proof (cases r)
    case None
    then show ?thesis by (simp add: sanitizeParametersForGemini.simps effect_refl)
  next
    case (Some a)
    show ?thesis
    proof (cases "a \<in> visited s \<or> length (heap s) \<le> a")
      case True
      then show ?thesis using Some by (simp add: sanitizeParametersForGemini.simps effect_refl)
    next
      case False
      have "effect (pre_default a (enter a s))
           (sanitize_properties a (sanitize_items a (sanitize_anyOf a (enter a s))))"
        using 1[OF Some False] by (blast intro: effect_trans)
      then have "effect s (sanitize_format a
           (sanitize_properties a (sanitize_items a (sanitize_anyOf a (enter a s)))))"
        using False by (intro effect_node) auto
      then show ?thesis using Some False by (simp add: sanitizeParametersForGemini.simps)
    qed
  qed
next
  case (2 a s)
  then show ?case
    by (auto simp: sanitize_anyOf.simps pre_default_def effect_refl split: option.splits)
next
  case (3 a s)
  then show ?case
    by (auto simp: sanitize_items.simps effect_refl split: option.splits schema_ref.splits)
next
  case (4 a s)
  then show ?case
    by (auto simp: sanitize_properties.simps effect_refl split: option.splits)
next
  case (5 s)
  then show ?case by (simp add: effect_refl)
next
  case (6 s x xs)
  then show ?case
    by (auto split: schema_ref.splits intro: effect_trans)
qed

lemma frame_children: "frame n n' \<Longrightarrow> children n' = children n"
  by (simp add: frame_def children_def refs_def item_refs_def)

lemma same_graph_children: "same_graph h h' \<Longrightarrow> i < length h \<Longrightarrow> children (h' ! i) = children (h ! i)"
  by (simp add: same_graph_def frame_children)

lemma nodes_append: "nodes (xs @ ys) = nodes xs @ nodes ys"
  by (induction xs rule: nodes.induct) simp_all

lemma reach_bound: "x \<in> reach h v R \<Longrightarrow> x < length h \<and> x \<notin> v"
  by (induction rule: reach.induct) auto

lemma reach_graph_sub:
  assumes "same_graph h h'" "x \<in> reach h v R"
  shows "x \<in> reach h' v R"
  using assms(2)
proof (induction rule: reach.induct)
  case (root r)
  then show ?case using assms(1) by (auto simp: same_graph_def intro: reach.root)
next
  case (step x c)
  have "x < length h" using step.hyps(1) reach_bound by blast
  then have "c \<in> set (children (h' ! x))" using step.hyps(2) assms(1) by (simp add: same_graph_children)
  then show ?case using step assms(1) by (auto simp: same_graph_def intro: reach.step)
qed

lemma same_graph_sym: "same_graph h h' \<Longrightarrow> same_graph h' h"
  by (auto simp: same_graph_def frame_def)

lemma same_graph_refl: "same_graph h h"
  by (simp add: same_graph_def frame_def)

lemma same_graph_trans: "same_graph h h' \<Longrightarrow> same_graph h' h'' \<Longrightarrow> same_graph h h''"
  by (auto simp: same_graph_def frame_def)

lemma reach_graph: "same_graph h h' \<Longrightarrow> reach h' v R = reach h v R"
  using reach_graph_sub same_graph_sym by blast

lemma reach_mono:
  assumes "x \<in> reach h v R" "R \<subseteq> R'" "v' \<subseteq> v"
  shows "x \<in> reach h v' R'"
  using assms(1)
proof (induction rule: reach.induct)
  case (root r)
  then show ?case using assms(2,3) by (auto intro: reach.root)
next
  case (step x c)
  then show ?case using assms(3) by (auto intro: reach.step)
qed

lemma reach_child:
  assumes "x \<in> reach h (insert a v) (set (children (h ! a)))" "a < length h" "a \<notin> v"
  shows "x \<in> reach h v {a}"
  using assms(1)
proof (induction rule: reach.induct)
  case (root r)
  have "a \<in> reach h v {a}" using assms(2,3) by (auto intro: reach.root)
  then show ?case using root by (auto intro: reach.step)
next
  case (step x c)
  then show ?case by (auto intro: reach.step)
qed

lemma trav_skip: "R \<inter> {..<length (heap s)} \<subseteq> visited s \<Longrightarrow> trav R s s"
  by (auto simp: trav_def grows_refl same_graph_refl)

lemma trav_heap:
  assumes "same_graph (heap s) (heap t)" "visited t = visited s"
  shows "trav {} s t"
  using assms by (auto simp: trav_def grows_def same_graph_def)

lemma trav_trans:
  assumes st: "trav R1 s t" and tu: "trav R2 t u"
  shows "trav (R1 \<union> R2) s u"
proof -
  have g: "grows s t" "grows t u" and sg: "same_graph (heap s) (heap t)"
      "same_graph (heap t) (heap u)"
    using st tu by (auto simp: trav_def)
  have len: "length (heap t) = length (heap s)" and sub: "visited s \<subseteq> visited t"
      "visited t \<subseteq> visited u"
    using g by (auto simp: grows_def)
  have rt: "reach (heap t) = reach (heap s)"
    using reach_graph[OF sg(1)] by (intro ext)
  have new2: "visited u - visited t \<subseteq> reach (heap s) (visited t) R2"
    using tu rt by (simp add: trav_def)
  have new1: "visited t - visited s \<subseteq> reach (heap s) (visited s) R1"
    using st by (simp add: trav_def)
  have roots: "\<forall>r\<in>R1 \<union> R2. r < length (heap s) \<longrightarrow> r \<in> visited u"
    using st tu sub len by (auto simp: trav_def)
  have closed: "c \<in> visited u"
    if x: "x \<in> visited u - visited s" and c: "c \<in> set (children (heap s ! x))"
      "c < length (heap s)" for x c
  proof (cases "x \<in> visited t")
    case True
    then have "c \<in> visited t" using st x c by (auto simp: trav_def)
    then show ?thesis using sub by auto
  next
    case False
    then have xu: "x \<in> visited u - visited t" using x by simp
    then have "x < length (heap s)" using new2 reach_bound by blast
    then have "children (heap t ! x) = children (heap s ! x)"
      using sg(1) by (simp add: same_graph_children)
    then show ?thesis using tu xu c len by (auto simp: trav_def)
  qed
  have sound: "visited u - visited s \<subseteq> reach (heap s) (visited s) (R1 \<union> R2)"
  proof
    fix x assume x: "x \<in> visited u - visited s"
    show "x \<in> reach (heap s) (visited s) (R1 \<union> R2)"
    proof (cases "x \<in> visited t")
      case True
      then have "x \<in> reach (heap s) (visited s) R1" using new1 x by auto
      then show ?thesis using reach_mono[of x "heap s" "visited s" R1 "R1 \<union> R2" "visited s"] by simp
    next
      case False
      then have "x \<in> reach (heap s) (visited t) R2" using new2 x by auto
      then show ?thesis
        using sub(1) reach_mono[of x "heap s" "visited t" R2 "R1 \<union> R2" "visited s"] by simp
    qed
  qed
  have closed': "\<forall>x\<in>visited u - visited s. \<forall>c\<in>set (children (heap s ! x)).
           c < length (heap s) \<longrightarrow> c \<in> visited u"
    using closed by blast
  show ?thesis
    unfolding trav_def
    using grows_trans[OF g] same_graph_trans[OF sg] roots closed' sound by simp
qed

lemma trav_roots: "trav R s t \<Longrightarrow> R = R' \<Longrightarrow> trav R' s t"
  by simp

lemma travD:
  assumes "trav R s t"
  shows "grows s t" "same_graph (heap s) (heap t)"
    "\<And>r. r \<in> R \<Longrightarrow> r < length (heap s) \<Longrightarrow> r \<in> visited t"
    "\<And>x c. x \<in> visited t \<Longrightarrow> x \<notin> visited s \<Longrightarrow> c \<in> set (children (heap s ! x))
        \<Longrightarrow> c < length (heap s) \<Longrightarrow> c \<in> visited t"
    "\<And>x. x \<in> visited t \<Longrightarrow> x \<notin> visited s \<Longrightarrow> x \<in> reach (heap s) (visited s) R"
  using assms unfolding trav_def by blast+

lemma travI:
  assumes "grows s t" "same_graph (heap s) (heap t)"
    "\<And>r. r \<in> R \<Longrightarrow> r < length (heap s) \<Longrightarrow> r \<in> visited t"
    "\<And>x c. x \<in> visited t \<Longrightarrow> x \<notin> visited s \<Longrightarrow> c \<in> set (children (heap s ! x))
        \<Longrightarrow> c < length (heap s) \<Longrightarrow> c \<in> visited t"
    "\<And>x. x \<in> visited t \<Longrightarrow> x \<notin> visited s \<Longrightarrow> x \<in> reach (heap s) (visited s) R"
  shows "trav R s t"
  using assms unfolding trav_def by blast

lemma trav_node:
  assumes a: "a \<notin> visited s" "a < length (heap s)"
    and t: "trav (set (children (heap s ! a))) (enter a s) t"
  shows "trav {a} s t"
proof (rule travI)
  have he: "heap (enter a s) = heap s" and ve: "visited (enter a s) = insert a (visited s)"
    by (simp_all add: enter_def)
  note d = travD[OF t, unfolded he ve]
  show "grows s t"
    using d(1) grows_enter[of s a] by (rule grows_trans[rotated])
  show "same_graph (heap s) (heap t)"
    by (rule d(2))
  have av: "a \<in> visited t"
    using travD(1)[OF t] ve by (auto simp: grows_def)
  then show "r \<in> visited t" if "r \<in> {a}" for r
    using that by simp
  show "c \<in> visited t"
    if "x \<in> visited t" "x \<notin> visited s" "c \<in> set (children (heap s ! x))" "c < length (heap s)"
    for x c
  proof (cases "x = a")
    case True
    then show ?thesis using d(3)[of c] that by simp
  next
    case False
    then show ?thesis using d(4)[of x c] that by simp
  qed
  show "x \<in> reach (heap s) (visited s) {a}" if "x \<in> visited t" "x \<notin> visited s" for x
  proof (cases "x = a")
    case True
    then show ?thesis using a by (simp add: reach.root)
  next
    case False
    then have "x \<in> reach (heap s) (insert a (visited s)) (set (children (heap s ! a)))"
      using d(5)[of x] that by simp
    then show ?thesis using a(2) a(1) by (rule reach_child)
  qed
qed

lemma same_graph_update:
  assumes "frame (h ! a) n"
  shows "same_graph h (h[a := n])"
  unfolding same_graph_def
proof (intro conjI allI impI)
  show "length (h[a := n]) = length h" by simp
  fix i assume "i < length h"
  then show "frame (h ! i) (h[a := n] ! i)"
    using assms by (cases "i = a") (simp_all add: frame_def)
qed

lemma trav_set_default: "trav {} s (set_default a s)"
  by (rule trav_heap) (simp_all add: set_default_def same_graph_update frame_def)

lemma trav_sanitize_format: "trav {} s (sanitize_format a s)"
  by (rule trav_heap)
    (simp_all add: sanitize_format_def set_format_def same_graph_update frame_def same_graph_refl)

lemma same_graph_fields:
  assumes "same_graph h h'" "a < length h"
  shows "anyOf (h' ! a) = anyOf (h ! a)" "item_refs (h' ! a) = item_refs (h ! a)"
    "properties (h' ! a) = properties (h ! a)"
  using assms by (simp_all add: same_graph_def frame_def item_refs_def)

lemma trav_all:
  "trav (set_option r) s (sanitizeParametersForGemini s r)"
  "trav (set (nodes (the_list (anyOf (heap s1 ! a))))) s1 (sanitize_anyOf a s1)"
  "trav (set (nodes (item_refs (heap s2 ! b)))) s2 (sanitize_items b s2)"
  "trav (set (nodes (map snd (the_list (properties (heap s3 ! c)))))) s3
     (sanitize_properties c s3)"
  "trav (set (nodes xs)) s4 (sanitize_each s4 xs)"
proof (induct s r and a s1 and b s2 and c s3 and s4 xs rule: sanitize_induct)
  case (1 s r)
  show ?case
  proof (cases r)
    case None
    then show ?thesis by (simp add: sanitizeParametersForGemini.simps trav_skip)
  next
    case (Some a)
    show ?thesis
    proof (cases "a \<in> visited s \<or> length (heap s) \<le> a")
      case True
      then show ?thesis using Some
        by (auto simp add: sanitizeParametersForGemini.simps intro!: trav_skip)
    next
      case False
      let ?s0 = "enter a s"
      let ?s1 = "sanitize_anyOf a ?s0"
      let ?s2 = "sanitize_items a ?s1"
      let ?s3 = "sanitize_properties a ?s2"
      have a: "a \<notin> visited s" "a < length (heap s)" using False by auto
      have h0: "heap ?s0 = heap s" by (simp add: enter_def)
      note ih = 1[OF Some False]
      have t1: "trav (set (nodes (the_list (anyOf (heap s ! a))))) ?s0 ?s1"
        using ih(1) h0 by simp
      have g1: "same_graph (heap s) (heap ?s1)"
        using travD(2)[OF t1] h0 by simp
      have t2: "trav (set (nodes (item_refs (heap s ! a)))) ?s1 ?s2"
        using ih(2) same_graph_fields(2)[OF g1 a(2)] by simp
      have t12: "trav (set (nodes (the_list (anyOf (heap s ! a))))
          \<union> set (nodes (item_refs (heap s ! a)))) ?s0 ?s2"
        using t1 t2 by (rule trav_trans)
      have g2: "same_graph (heap s) (heap ?s2)"
        using travD(2)[OF t12] h0 by simp
      have t3: "trav (set (nodes (map snd (the_list (properties (heap s ! a)))))) ?s2 ?s3"
        using ih(3) same_graph_fields(3)[OF g2 a(2)] by simp
      have t123: "trav ((set (nodes (the_list (anyOf (heap s ! a))))
          \<union> set (nodes (item_refs (heap s ! a))))
          \<union> set (nodes (map snd (the_list (properties (heap s ! a)))))) ?s0 ?s3"
        using t12 t3 by (rule trav_trans)
      have "trav (((set (nodes (the_list (anyOf (heap s ! a))))
          \<union> set (nodes (item_refs (heap s ! a))))
          \<union> set (nodes (map snd (the_list (properties (heap s ! a)))))) \<union> {}) ?s0
          (sanitize_format a ?s3)"
        using t123 trav_sanitize_format by (rule trav_trans)
      then have "trav (set (children (heap s ! a))) ?s0 (sanitize_format a ?s3)"
        by (simp add: children_def refs_def nodes_append Un_assoc)
      then have "trav {a} s (sanitize_format a ?s3)"
        using a by (intro trav_node)
      then show ?thesis using Some False by (simp add: sanitizeParametersForGemini.simps)
    qed
  qed
next
  case (2 a s)
  show ?case
  proof (cases "read (anyOf (heap s ! a))")
    case None
    then show ?thesis by (simp add: sanitize_anyOf.simps the_list_def trav_skip)
  next
    case (Some xs)
    have "trav ({} \<union> set (nodes xs)) s (sanitize_each (set_default a s) xs)"
      using trav_set_default 2[OF Some] by (rule trav_trans)
    then show ?thesis using Some by (simp add: sanitize_anyOf.simps the_list_def)
  qed
next
  case (3 a s)
  then show ?case
    by (auto simp: sanitize_items.simps item_refs_def trav_skip
        split: option.splits schema_ref.splits)
next
  case (4 a s)
  then show ?case
    by (auto simp: sanitize_properties.simps the_list_def trav_skip split: option.splits)
next
  case (5 s)
  then show ?case by (simp add: trav_skip)
next
  case (6 s x xs)
  show ?case
  proof (cases x)
    case (Node c)
    have "trav ({c} \<union> set (nodes xs)) s
        (sanitize_each (sanitizeParametersForGemini s (Some c)) xs)"
      using 6(1)[OF Node, simplified] 6(2)[OF Node] by (rule trav_trans)
    then show ?thesis using Node by simp
  next
    case (BoolSchema b)
    then show ?thesis using 6(3) by simp
  qed
qed

lemma trav_visited:
  assumes "trav R s t"
  shows "visited t = visited s \<union> reach (heap s) (visited s) R"
proof -
  have "x \<in> visited t" if "x \<in> reach (heap s) (visited s) R" for x
    using that
  proof (induction rule: reach.induct)
    case (root r)
    then show ?case using travD(3)[OF assms] by simp
  next
    case (step x c)
    have "x \<notin> visited s" using step.hyps(1) reach_bound by blast
    then show ?case using travD(4)[OF assms step.IH _ step.hyps(2,3)] by simp
  qed
  moreover have "visited s \<subseteq> visited t"
    using travD(1)[OF assms] by (simp add: grows_def)
  ultimately show ?thesis
    using travD(5)[OF assms] by blast
qed

text \<open>
  A call enters exactly the objects reachable from its argument outside the \<open>visited\<close>
  set it was given, sanitizes each of them, and changes nothing else.
\<close>

lemma reach_disjoint: "reach h v R \<inter> v = {}"
  using reach_bound by blast

lemma reach_children_sub:
  assumes "length h' = length h"
    and "\<And>i. i < length h \<Longrightarrow> set (children (h' ! i)) = set (children (h ! i))"
    and "x \<in> reach h v R"
  shows "x \<in> reach h' v R"
  using assms(3)
proof (induction rule: reach.induct)
  case (root r)
  then show ?case using assms(1) by (simp add: reach.root)
next
  case (step x c)
  have "x < length h" using step.hyps(1) reach_bound by blast
  then have "c \<in> set (children (h' ! x))" using step.hyps(2) assms(2) by simp
  then show ?case using step.IH step.hyps(3,4) assms(1) by (simp add: reach.step)
qed

lemma reach_children:
  assumes "length h' = length h"
    and "\<And>i. i < length h \<Longrightarrow> set (children (h' ! i)) = set (children (h ! i))"
  shows "reach h' v R = reach h v R"
proof
  show "reach h' v R \<subseteq> reach h v R"
    using reach_children_sub[of h h'] assms by auto
  show "reach h v R \<subseteq> reach h' v R"
    using reach_children_sub[of h' h] assms by auto
qed

lemma sanitize_visited:
  "visited (sanitizeParametersForGemini s r) = visited s \<union> reach (heap s) (visited s) (set_option r)"
  using trav_all(1) by (rule trav_visited)

lemma sanitize_new:
  "visited (sanitizeParametersForGemini s r) - visited s = reach (heap s) (visited s) (set_option r)"
  using sanitize_visited[of s r] reach_disjoint[of "heap s" "visited s" "set_option r"] by auto

lemma sanitize_length: "length (heap (sanitizeParametersForGemini s r)) = length (heap s)"
  using effect_all(1)[of s r] by (simp add: effect_def)

lemma sanitize_heap:
  assumes "i < length (heap s)"
  shows "heap (sanitizeParametersForGemini s r) ! i =
    (if i \<in> reach (heap s) (visited s) (set_option r) then sanitized (heap s ! i) else heap s ! i)"
  using effect_all(1)[of s r] assms unfolding effect_def sanitize_new by simp

lemma sanitize_entered:
  "\<exists>new. entered (sanitizeParametersForGemini s r) = entered s @ new \<and> distinct new
     \<and> set new = reach (heap s) (visited s) (set_option r)"
  using effect_all(1)[of s r] unfolding effect_def sanitize_new by simp

lemma sanitize_same_graph: "same_graph (heap s) (heap (sanitizeParametersForGemini s r))"
  using trav_all(1)[of r s] by (rule travD(2))

lemma distinct_count_list: "distinct xs \<Longrightarrow> count_list xs a = (if a \<in> set xs then 1 else 0)"
  by (induction xs) auto

lemma sanitized_idem: "sanitized (sanitized n) = sanitized n"
  by (simp add: sanitized_def unsupported_def)

lemma frame_sanitized: "frame n (sanitized n)"
  by (simp add: frame_def sanitized_def)

lemma reach_card: "card (reach h v R) \<le> length h"
proof -
  have "reach h v R \<subseteq> {..<length h}"
    using reach_bound by blast
  then have "card (reach h v R) \<le> card {..<length h}"
    by (intro card_mono) simp_all
  then show ?thesis by simp
qed

lemma call_entered:
  "distinct (entered (sanitize_call h r)) \<and> set (entered (sanitize_call h r)) = reach h {} (set_option r)"
  using sanitize_entered[of "fresh h" r] by (auto simp: sanitize_call_def fresh_def)

lemma call_visited: "visited (sanitize_call h r) = reach h {} (set_option r)"
  using sanitize_visited[of "fresh h" r] by (simp add: sanitize_call_def fresh_def)

lemma call_heap:
  "i < length h \<Longrightarrow> heap (sanitize_call h r) ! i =
     (if i \<in> reach h {} (set_option r) then sanitized (h ! i) else h ! i)"
  using sanitize_heap[of i "fresh h" r] by (simp add: sanitize_call_def fresh_def)

lemma call_length: "length (heap (sanitize_call h r)) = length h"
  by (simp add: sanitize_call_def sanitize_length fresh_def)

lemma call_same_graph: "same_graph h (heap (sanitize_call h r))"
  using sanitize_same_graph[of "fresh h" r] by (simp add: sanitize_call_def fresh_def)

lemma set_nodes: "set (nodes xs) = {c. Node c \<in> set xs}"
  by (induction xs rule: nodes.induct) auto

lemma same_entries_set:
  "same_entries f g \<Longrightarrow> set (map snd (the_list f)) = set (map snd (the_list g))"
  by (cases "(f, g)" rule: same_entries.cases) (auto simp: the_list_def dest: mset_eq_setD)

lemma reordered_children:
  assumes "n' = n\<lparr>properties := properties n'\<rparr>" "same_entries (properties n) (properties n')"
  shows "set (children n') = set (children n)"
proof -
  have "anyOf n' = anyOf n" "items n' = items n"
    using assms(1) by (metis Schema.select_convs Schema.surjective Schema.update_convs)+
  then show ?thesis
    using same_entries_set[OF assms(2)]
    by (simp add: children_def refs_def item_refs_def set_nodes)
qed

lemma sanitized_properties:
  "sanitized (n\<lparr>properties := p\<rparr>) = (sanitized n)\<lparr>properties := p\<rparr>"
  by (simp add: sanitized_def)

text \<open>
  On a well-shaped store, with more activations available than objects are unvisited,
  the evaluation with error outcomes returns what the function returns; with fewer
  activations, or on a store with a reference to no object, it can fail.
\<close>

lemma well_shapedD: "well_shaped h \<Longrightarrow> i < length h \<Longrightarrow> c \<in> set (children (h ! i)) \<Longrightarrow> c < length h"
  by (auto simp: well_shaped_def list_all_iff)

lemma well_shaped_same_graph:
  assumes "same_graph h h'" "well_shaped h"
  shows "well_shaped h'"
proof -
  have "length h' = length h" "\<And>i. i < length h \<Longrightarrow> children (h' ! i) = children (h ! i)"
    using assms(1) by (simp_all add: same_graph_def same_graph_children)
  then show ?thesis
    using assms(2) by (simp add: well_shaped_def list_all_length)
qed

lemma and_then_Inr: "and_then (Inr x) f = f x"
  by (simp add: and_then_def)

lemma children_parts:
  "set (children n) = set (nodes (the_list (anyOf n))) \<union> set (nodes (item_refs n))
     \<union> set (nodes (map snd (the_list (properties n))))"
  by (simp add: children_def refs_def nodes_append Un_assoc)

lemma ready_trav: "trav R s t \<Longrightarrow> ready k s \<Longrightarrow> ready k t"
  using travD(1,2)[of R s t] unvisited_grows[of s t] well_shaped_same_graph[of "heap s" "heap t"]
  by (auto simp: ready_def)

lemma run_agrees:
  "\<forall>k. ready k s \<longrightarrow> (\<forall>a. r = Some a \<longrightarrow> a < length (heap s))
     \<longrightarrow> run k s r = Inr (sanitizeParametersForGemini s r)"
  "\<forall>k. ready k s1 \<longrightarrow> a < length (heap s1)
     \<longrightarrow> run_anyOf k a s1 = Inr (sanitize_anyOf a s1)"
  "\<forall>k. ready k s2 \<longrightarrow> b < length (heap s2)
     \<longrightarrow> run_items k b s2 = Inr (sanitize_items b s2)"
  "\<forall>k. ready k s3 \<longrightarrow> c < length (heap s3)
     \<longrightarrow> run_properties k c s3 = Inr (sanitize_properties c s3)"
  "\<forall>k. ready k s4 \<longrightarrow> (\<forall>c\<in>set (nodes xs). c < length (heap s4))
     \<longrightarrow> run_each k s4 xs = Inr (sanitize_each s4 xs)"
proof (induct s r and a s1 and b s2 and c s3 and s4 xs rule: sanitize_induct)
  case (1 s r)
  show ?case
  proof (intro allI impI)
    fix k assume rd: "ready k s" and rt: "\<forall>a. r = Some a \<longrightarrow> a < length (heap s)"
    then obtain k' where k: "k = Suc k'"
      by (cases k) (auto simp: ready_def)
    show "run k s r = Inr (sanitizeParametersForGemini s r)"
    proof (cases r)
      case None
      then show ?thesis by (simp add: k sanitizeParametersForGemini.simps)
    next
      case (Some a)
      show ?thesis
      proof (cases "a \<in> visited s")
        case True
        then show ?thesis using Some by (simp add: k sanitizeParametersForGemini.simps)
      next
        case False
        have al: "a < length (heap s)" using rt Some by simp
        then have g: "\<not> (a \<in> visited s \<or> length (heap s) \<le> a)" using False by simp
        note ih = 1[OF Some g]
        let ?s0 = "enter a s"
        let ?s1 = "sanitize_anyOf a ?s0"
        let ?s2 = "sanitize_items a ?s1"
        let ?s3 = "sanitize_properties a ?s2"
        have h0: "heap ?s0 = heap s" by (simp add: enter_def)
        have "unvisited ?s0 < unvisited s" using False al by (rule unvisited_enter)
        then have r0: "ready k' ?s0" using rd h0 by (simp add: ready_def k)
        have r1: "ready k' ?s1" using trav_all(2) r0 by (rule ready_trav)
        have r2: "ready k' ?s2" using trav_all(3) r1 by (rule ready_trav)
        have l1: "a < length (heap ?s1)"
          using travD(1)[OF trav_all(2)[of ?s0 a]] al h0 by (simp add: grows_def)
        have l2: "a < length (heap ?s2)"
          using travD(1)[OF trav_all(3)[of ?s1 a]] l1 by (simp add: grows_def)
        have e1: "run_anyOf k' a ?s0 = Inr ?s1" using ih(1) r0 al h0 by simp
        have e2: "run_items k' a ?s1 = Inr ?s2" using ih(2) r1 l1 by simp
        have e3: "run_properties k' a ?s2 = Inr ?s3" using ih(3) r2 l2 by simp
        show ?thesis
          using Some g by (simp add: k e1 e2 e3 and_then_Inr sanitizeParametersForGemini.simps)
      qed
    qed
  qed
next
  case (2 a s)
  show ?case
  proof (intro allI impI)
    fix k assume rd: "ready k s" and al: "a < length (heap s)"
    show "run_anyOf k a s = Inr (sanitize_anyOf a s)"
    proof (cases "read (anyOf (heap s ! a))")
      case None
      then show ?thesis by (simp add: sanitize_anyOf.simps run_anyOf.simps)
    next
      case (Some xs)
      have "ready k (set_default a s)"
        using trav_set_default rd by (rule ready_trav)
      moreover have "set (nodes xs) \<subseteq> set (children (heap s ! a))"
        using Some by (auto simp: children_parts the_list_def)
      then have "\<forall>c\<in>set (nodes xs). c < length (heap (set_default a s))"
        using rd al well_shapedD[of "heap s" a] by (auto simp: ready_def set_default_def)
      ultimately show ?thesis
        using 2[OF Some] Some by (simp add: sanitize_anyOf.simps run_anyOf.simps)
    qed
  qed
next
  case (3 a s)
  show ?case
  proof (intro allI impI)
    fix k assume rd: "ready k s" and al: "a < length (heap s)"
    show "run_items k a s = Inr (sanitize_items a s)"
    proof (cases "read (items (heap s ! a))")
      case None
      then show ?thesis by (simp add: sanitize_items.simps run_items.simps)
    next
      case (Some x)
      show ?thesis
      proof (cases x)
        case (Node c)
        have "c \<in> set (children (heap s ! a))"
          using Some Node by (auto simp: children_parts item_refs_def)
        then have "c < length (heap s)"
          using rd al well_shapedD[of "heap s" a c] by (simp add: ready_def)
        then show ?thesis
          using 3[OF Some Node] rd Some Node by (simp add: sanitize_items.simps run_items.simps)
      next
        case (BoolSchema b)
        then show ?thesis using Some by (simp add: sanitize_items.simps run_items.simps)
      qed
    qed
  qed
next
  case (4 a s)
  show ?case
  proof (intro allI impI)
    fix k assume rd: "ready k s" and al: "a < length (heap s)"
    show "run_properties k a s = Inr (sanitize_properties a s)"
    proof (cases "read (properties (heap s ! a))")
      case None
      then show ?thesis by (simp add: sanitize_properties.simps run_properties.simps)
    next
      case (Some ps)
      have "set (nodes (map snd ps)) \<subseteq> set (children (heap s ! a))"
        using Some by (auto simp: children_parts the_list_def)
      then have "\<forall>c\<in>set (nodes (map snd ps)). c < length (heap s)"
        using rd al well_shapedD[of "heap s" a] by (auto simp: ready_def)
      then show ?thesis
        using 4[OF Some] rd Some by (simp add: sanitize_properties.simps run_properties.simps)
    qed
  qed
next
  case (5 s)
  show ?case by simp
next
  case (6 s x xs)
  show ?case
  proof (intro allI impI)
    fix k assume rd: "ready k s" and in_store: "\<forall>c\<in>set (nodes (x # xs)). c < length (heap s)"
    show "run_each k s (x # xs) = Inr (sanitize_each s (x # xs))"
    proof (cases x)
      case (Node c)
      let ?s' = "sanitizeParametersForGemini s (Some c)"
      have cl: "c < length (heap s)" using in_store Node by simp
      have e1: "run k s (Some c) = Inr ?s'"
        using 6(1)[OF Node] rd cl by simp
      have "ready k ?s'" using trav_all(1) rd by (rule ready_trav)
      moreover have "\<forall>c\<in>set (nodes xs). c < length (heap ?s')"
        using in_store Node by (simp add: sanitize_length)
      ultimately have "run_each k ?s' xs = Inr (sanitize_each ?s' xs)"
        using 6(2)[OF Node] by simp
      then show ?thesis using Node e1 by (simp add: and_then_Inr)
    next
      case (BoolSchema b)
      then show ?thesis using 6(3)[OF BoolSchema] rd in_store by simp
    qed
  qed
qed

lemma run_too_shallow: "run 2 (fresh example_store) (Some 0) = Inl StackExhausted"
  by code_simp

lemma run_no_object: "run 2 (fresh [empty_schema\<lparr>items := Value (Node 7)\<rparr>]) (Some 0) = Inl NoObject"
  by code_simp

section \<open>The claims\<close>

text \<open>
  C1. An object that a call enters and whose type is STRING has its format cleared (set to
  \<^verbatim>\<open>undefined\<close>, the key staying) if and only if the format was a non-empty string other
  than enum and date-time; a format that is absent, empty, enum or date-time is unchanged.
\<close>

theorem string_format_cleared_iff_unsupported:
  assumes "a \<in> visited (sanitizeParametersForGemini s r)" and "a \<notin> visited s"
    and "type (heap s ! a) = Value STRING"
  shows "format (heap (sanitizeParametersForGemini s r) ! a) =
      (if unsupported (format (heap s ! a)) then Undefined else format (heap s ! a))
    \<and> (format (heap (sanitizeParametersForGemini s r) ! a) \<noteq> format (heap s ! a)
        \<longleftrightarrow> unsupported (format (heap s ! a)))"
proof -
  have ra: "a \<in> reach (heap s) (visited s) (set_option r)"
    using assms(1,2) sanitize_new[of s r] by blast
  then have "a < length (heap s)"
    using reach_bound by blast
  then have "heap (sanitizeParametersForGemini s r) ! a = sanitized (heap s ! a)"
    using ra by (simp add: sanitize_heap)
  then show ?thesis
    using assms(3) by (cases "format (heap s ! a)") (auto simp: sanitized_def unsupported_def)
qed

theorem string_format_cleared_iff_unsupported_witness:
  "1 \<in> visited (sanitizeParametersForGemini (fresh example_store) (Some 0))
   \<and> 1 \<notin> visited (fresh example_store)
   \<and> type (heap (fresh example_store) ! 1) = Value STRING
   \<and> format (heap (fresh example_store) ! 1) = Value ''hostname''
   \<and> format (heap (sanitizeParametersForGemini (fresh example_store) (Some 0)) ! 1) = Undefined"
proof -
  have 1: "1 \<in> visited (sanitizeParametersForGemini (fresh example_store) (Some 0))"
    by code_simp
  have 2: "1 \<notin> visited (fresh example_store)"
    by code_simp
  have 3: "type (heap (fresh example_store) ! 1) = Value STRING"
    by code_simp
  have 4: "format (heap (fresh example_store) ! 1) = Value ''hostname''"
    by code_simp
  have 5: "unsupported (format (heap (fresh example_store) ! 1))"
    by code_simp
  have "format (heap (sanitizeParametersForGemini (fresh example_store) (Some 0)) ! 1) = Undefined"
    using string_format_cleared_iff_unsupported[OF 1 2 3] 5 by simp
  then show ?thesis
    using 1 2 3 4 by simp
qed

text \<open>
  C2. An object that a call enters and that declares \<open>anyOf\<close> has its default cleared,
  whatever \<open>anyOf\<close> holds and whatever the default was before: the property then reads
  \<^verbatim>\<open>undefined\<close>, as it does when it was never set.
\<close>

theorem anyOf_clears_default:
  assumes "a \<in> visited (sanitizeParametersForGemini s r)" and "a \<notin> visited s"
    and "read (anyOf (heap s ! a)) \<noteq> None"
  shows "default (heap (sanitizeParametersForGemini s r) ! a) = Undefined
    \<and> read (default (heap (sanitizeParametersForGemini s r) ! a)) = None"
proof -
  have ra: "a \<in> reach (heap s) (visited s) (set_option r)"
    using assms(1,2) sanitize_new[of s r] by blast
  then have "a < length (heap s)"
    using reach_bound by blast
  then have "heap (sanitizeParametersForGemini s r) ! a = sanitized (heap s ! a)"
    using ra by (simp add: sanitize_heap)
  then show ?thesis
    using assms(3) by (simp add: sanitized_def)
qed

theorem anyOf_clears_default_witness:
  "3 \<in> visited (sanitizeParametersForGemini (fresh example_store) (Some 0))
   \<and> 3 \<notin> visited (fresh example_store)
   \<and> read (anyOf (heap (fresh example_store) ! 3)) \<noteq> None
   \<and> default (heap (fresh example_store) ! 3) = Value (JStr ''x'')
   \<and> default (heap (sanitizeParametersForGemini (fresh example_store) (Some 0)) ! 3) = Undefined"
proof -
  have 1: "3 \<in> visited (sanitizeParametersForGemini (fresh example_store) (Some 0))"
    by code_simp
  have 2: "3 \<notin> visited (fresh example_store)"
    by code_simp
  have 3: "read (anyOf (heap (fresh example_store) ! 3)) \<noteq> None"
    by code_simp
  have 4: "default (heap (fresh example_store) ! 3) = Value (JStr ''x'')"
    by code_simp
  show ?thesis
    using anyOf_clears_default[OF 1 2 3] 1 2 3 4 by simp
qed

text \<open>
  C3. The function is total: the termination proof above holds for every store, with
  cycles and shared objects. In a top-level call the guard of line 18 is passed exactly
  once for every object reachable from the argument and never for another one, so the
  body runs at most as often as the store has objects.
\<close>

theorem each_reachable_object_entered_once:
  "count_list (entered (sanitize_call h r)) a = (if a \<in> reach h {} (set_option r) then 1 else 0)
   \<and> length (entered (sanitize_call h r)) \<le> length h"
proof -
  have d: "distinct (entered (sanitize_call h r))"
    and e: "set (entered (sanitize_call h r)) = reach h {} (set_option r)"
    using call_entered by auto
  have "length (entered (sanitize_call h r)) = card (reach h {} (set_option r))"
    using d e distinct_card by fastforce
  then show ?thesis
    using d e reach_card[of h "{}" "set_option r"] by (simp add: distinct_count_list)
qed

theorem each_reachable_object_entered_once_witness:
  "count_list (entered (sanitize_call example_store (Some 0))) 0 = 1
   \<and> entered (sanitize_call example_store (Some 0)) = [0, 1, 2, 3, 4]
   \<and> length (entered (sanitize_call example_store (Some 0))) \<le> length example_store"
proof -
  have "0 \<in> reach example_store {} (set_option (Some 0))"
    by (rule reach.root) (simp_all add: example_store_def)
  then have "count_list (entered (sanitize_call example_store (Some 0))) 0 = 1"
    using each_reachable_object_entered_once[of example_store "Some 0" 0] by simp
  moreover have "entered (sanitize_call example_store (Some 0)) = [0, 1, 2, 3, 4]"
    by code_simp
  moreover have "length (entered (sanitize_call example_store (Some 0))) \<le> length example_store"
    using each_reachable_object_entered_once[of example_store "Some 0" 0] by simp
  ultimately show ?thesis
    by simp
qed

text \<open>
  C4. A top-level call visits exactly the objects reachable from its argument through
  the object entries of \<open>anyOf\<close>, a non-boolean \<open>items\<close> and the object values of
  \<open>properties\<close>; with every object it visits it visits all of these successors; each
  visited object is sanitized and every other one is left as it was; and no slot, a
  literal boolean included, is changed.
\<close>

theorem recurses_into_reachable_objects:
  "visited (sanitize_call h r) = reach h {} (set_option r)
   \<and> (\<forall>a\<in>visited (sanitize_call h r). \<forall>c\<in>set (children (h ! a)).
         c < length h \<longrightarrow> c \<in> visited (sanitize_call h r))
   \<and> (\<forall>a<length h. heap (sanitize_call h r) ! a =
         (if a \<in> reach h {} (set_option r) then sanitized (h ! a) else h ! a))
   \<and> (\<forall>a<length h. refs (heap (sanitize_call h r) ! a) = refs (h ! a))"
proof (intro conjI)
  show v: "visited (sanitize_call h r) = reach h {} (set_option r)"
    by (rule call_visited)
  show "\<forall>a\<in>visited (sanitize_call h r). \<forall>c\<in>set (children (h ! a)).
         c < length h \<longrightarrow> c \<in> visited (sanitize_call h r)"
    unfolding v by (auto intro: reach.step)
  show "\<forall>a<length h. heap (sanitize_call h r) ! a =
         (if a \<in> reach h {} (set_option r) then sanitized (h ! a) else h ! a)"
    by (simp add: call_heap)
  show "\<forall>a<length h. refs (heap (sanitize_call h r) ! a) = refs (h ! a)"
    using call_same_graph[of h r]
    by (simp add: same_graph_def frame_def refs_def item_refs_def)
qed

theorem recurses_into_reachable_objects_witness:
  "reach example_store {} (set_option (Some 0)) = {0, 1, 2, 3, 4}
   \<and> children (example_store ! 3) = [1, 4]
   \<and> heap (sanitize_call example_store (Some 0)) ! 4 = sanitized (example_store ! 4)
   \<and> heap (sanitize_call example_store (Some 0)) ! 5 = example_store ! 5
   \<and> refs (heap (sanitize_call example_store (Some 0)) ! 3) = [Node 1, BoolSchema False, Node 4]"
proof -
  note t = recurses_into_reachable_objects[of example_store "Some 0"]
  have v: "visited (sanitize_call example_store (Some 0)) = {0, 1, 2, 3, 4}"
    by code_simp
  have r: "reach example_store {} (set_option (Some 0)) = {0, 1, 2, 3, 4}"
    using t v by simp
  have l: "4 < length example_store" "5 < length example_store" "3 < length example_store"
    by (simp_all add: example_store_def)
  note t3 = t[THEN conjunct2, THEN conjunct2, THEN conjunct1, rule_format]
  note t4 = t[THEN conjunct2, THEN conjunct2, THEN conjunct2, rule_format]
  have "heap (sanitize_call example_store (Some 0)) ! 4 = sanitized (example_store ! 4)"
    using t3[OF l(1)] r by simp
  moreover have "heap (sanitize_call example_store (Some 0)) ! 5 = example_store ! 5"
    using t3[OF l(2)] r by simp
  moreover have "refs (example_store ! 3) = [Node 1, BoolSchema False, Node 4]"
    by code_simp
  then have "refs (heap (sanitize_call example_store (Some 0)) ! 3)
      = [Node 1, BoolSchema False, Node 4]"
    using t4[OF l(3)] by simp
  moreover have "children (example_store ! 3) = [1, 4]"
    by code_simp
  ultimately show ?thesis
    using r by simp
qed

text \<open>
  C5. Sanitizing is idempotent: a second top-level call on the store that the first one
  returned changes nothing.
\<close>

theorem sanitize_idempotent:
  "heap (sanitize_call (heap (sanitize_call h r)) r) = heap (sanitize_call h r)"
proof (rule nth_equalityI)
  show "length (heap (sanitize_call (heap (sanitize_call h r)) r)) = length (heap (sanitize_call h r))"
    by (simp add: call_length)
  fix i assume "i < length (heap (sanitize_call (heap (sanitize_call h r)) r))"
  then have i: "i < length h"
    by (simp add: call_length)
  have "reach (heap (sanitize_call h r)) {} (set_option r) = reach h {} (set_option r)"
    using call_same_graph by (rule reach_graph)
  then show "heap (sanitize_call (heap (sanitize_call h r)) r) ! i = heap (sanitize_call h r) ! i"
    using i by (simp add: call_heap call_length sanitized_idem)
qed

theorem sanitize_idempotent_witness:
  "format (heap (sanitize_call example_store (Some 0)) ! 1) \<noteq> format (example_store ! 1)
   \<and> heap (sanitize_call (heap (sanitize_call example_store (Some 0))) (Some 0))
     = heap (sanitize_call example_store (Some 0))"
proof -
  have "format (heap (sanitize_call example_store (Some 0)) ! 1) = Undefined"
    "format (example_store ! 1) = Value ''hostname''"
    by code_simp+
  then show ?thesis
    using sanitize_idempotent[of example_store "Some 0"] by simp
qed

text \<open>
  C6. A call with an absent schema returns the state it was given, and a call on the
  empty object leaves the store as it was; neither raises, however few activations are
  available beyond the one of the call. In general a call raises nothing: on every
  well-shaped store, cyclic or not, and for every argument that is absent or an object of
  the store, the evaluation with error outcomes returns the state the function returns,
  as soon as more activations are available than objects are unvisited; for a top-level
  call, one more than the store has objects.
\<close>

theorem no_error_conditions:
  "sanitize_call h None = fresh h
   \<and> (a < length h \<longrightarrow> h ! a = empty_schema \<longrightarrow> heap (sanitize_call h (Some a)) = h)
   \<and> run (Suc k) (fresh h) None = Inr (fresh h)
   \<and> (a < length h \<longrightarrow> h ! a = empty_schema \<longrightarrow>
        run (Suc k) (fresh h) (Some a) = Inr (sanitize_call h (Some a)))
   \<and> (well_shaped (heap s) \<longrightarrow> (\<forall>b. r = Some b \<longrightarrow> b < length (heap s)) \<longrightarrow> unvisited s < n \<longrightarrow>
        run n s r = Inr (sanitizeParametersForGemini s r))
   \<and> (well_shaped h \<longrightarrow> (\<forall>b. r = Some b \<longrightarrow> b < length h) \<longrightarrow>
        run (Suc (length h)) (fresh h) r = Inr (sanitize_call h r))"
proof (intro conjI impI)
  show "sanitize_call h None = fresh h"
    by (simp add: sanitize_call_def sanitizeParametersForGemini.simps)
  show "run (Suc k) (fresh h) None = Inr (fresh h)"
    by simp
  show general: "run n s r = Inr (sanitizeParametersForGemini s r)"
    if "well_shaped (heap s)" "\<forall>b. r = Some b \<longrightarrow> b < length (heap s)" "unvisited s < n"
    for n s r
    using run_agrees(1)[of s r] that by (simp add: ready_def)
  show "run (Suc (length h)) (fresh h) r = Inr (sanitize_call h r)"
    if "well_shaped h" "\<forall>b. r = Some b \<longrightarrow> b < length h"
    using general[of "fresh h" r "Suc (length h)"] that
    by (simp add: sanitize_call_def fresh_def unvisited_def)
  have e: "sanitizeParametersForGemini (fresh h) (Some a) = enter a (fresh h)"
    if "a < length h" "h ! a = empty_schema"
    using that
    by (simp add: sanitizeParametersForGemini.simps sanitize_anyOf.simps sanitize_items.simps
        sanitize_properties.simps sanitize_format_def enter_def fresh_def empty_schema_def)
  show "heap (sanitize_call h (Some a)) = h" if "a < length h" "h ! a = empty_schema"
    using e[OF that] by (simp add: sanitize_call_def enter_def fresh_def)
  show "run (Suc k) (fresh h) (Some a) = Inr (sanitize_call h (Some a))"
    if "a < length h" "h ! a = empty_schema"
    using that e[OF that]
    by (simp add: sanitize_call_def run_anyOf.simps run_items.simps run_properties.simps
        and_then_def sanitize_format_def enter_def fresh_def empty_schema_def)
qed

theorem no_error_conditions_witness:
  "sanitize_call [empty_schema] None = fresh [empty_schema]
   \<and> 0 < length [empty_schema] \<and> [empty_schema] ! 0 = empty_schema
   \<and> heap (sanitize_call [empty_schema] (Some 0)) = [empty_schema]
   \<and> run 1 (fresh [empty_schema]) None = Inr (fresh [empty_schema])
   \<and> run 1 (fresh [empty_schema]) (Some 0) = Inr (sanitize_call [empty_schema] (Some 0))
   \<and> well_shaped example_store \<and> 0 < length example_store
   \<and> unvisited (fresh example_store) < 7
   \<and> run 7 (fresh example_store) (Some 0) = Inr (sanitize_call example_store (Some 0))"
proof -
  note t = no_error_conditions[of "[empty_schema]" 0 0 "fresh example_store" "Some 0" 7]
  have w: "well_shaped example_store"
    by code_simp
  have l: "0 < length example_store"
    by (simp add: example_store_def)
  have u: "unvisited (fresh example_store) < 7"
    by (simp add: unvisited_def fresh_def example_store_def)
  have h: "heap (fresh example_store) = example_store"
    by (simp add: fresh_def)
  have g: "run 7 (fresh example_store) (Some 0) = Inr (sanitize_call example_store (Some 0))"
    using t[THEN conjunct2, THEN conjunct2, THEN conjunct2, THEN conjunct2, THEN conjunct1]
      w l u h by (simp add: sanitize_call_def)
  have "sanitize_call [empty_schema] None = fresh [empty_schema]"
    "heap (sanitize_call [empty_schema] (Some 0)) = [empty_schema]"
    "run 1 (fresh [empty_schema]) None = Inr (fresh [empty_schema])"
    "run 1 (fresh [empty_schema]) (Some 0) = Inr (sanitize_call [empty_schema] (Some 0))"
    using t by simp_all
  then show ?thesis
    using w l u g by simp
qed

text \<open>
  C7. A call changes only \<open>default\<close> and \<open>format\<close>, and only on objects it reaches: the
  store keeps its size, every other field of every object is as before (so every
  reference is), and an object the call does not reach is unchanged.
\<close>

theorem only_default_and_format_change:
  "length (heap (sanitizeParametersForGemini s r)) = length (heap s)
   \<and> (\<forall>i<length (heap s).
        type (heap (sanitizeParametersForGemini s r) ! i) = type (heap s ! i)
      \<and> anyOf (heap (sanitizeParametersForGemini s r) ! i) = anyOf (heap s ! i)
      \<and> items (heap (sanitizeParametersForGemini s r) ! i) = items (heap s ! i)
      \<and> properties (heap (sanitizeParametersForGemini s r) ! i) = properties (heap s ! i)
      \<and> enum' (heap (sanitizeParametersForGemini s r) ! i) = enum' (heap s ! i)
      \<and> other (heap (sanitizeParametersForGemini s r) ! i) = other (heap s ! i)
      \<and> (i \<notin> reach (heap s) (visited s) (set_option r) \<longrightarrow>
           heap (sanitizeParametersForGemini s r) ! i = heap s ! i))"
  using sanitize_same_graph[of s r] by (simp add: same_graph_def frame_def sanitize_heap)

theorem only_default_and_format_change_witness:
  "length (heap (sanitizeParametersForGemini (fresh example_store) (Some 0))) = 6
   \<and> 3 < length (heap (fresh example_store))
   \<and> type (heap (sanitizeParametersForGemini (fresh example_store) (Some 0)) ! 3) = NoKey
   \<and> anyOf (heap (sanitizeParametersForGemini (fresh example_store) (Some 0)) ! 3)
       = Value [Node 1, BoolSchema False, Node 4]
   \<and> default (heap (sanitizeParametersForGemini (fresh example_store) (Some 0)) ! 3) = Undefined"
proof -
  have l: "length (heap (fresh example_store)) = 6" "3 < length (heap (fresh example_store))"
    by (simp_all add: fresh_def example_store_def)
  have f: "type (heap (fresh example_store) ! 3) = NoKey"
    "anyOf (heap (fresh example_store) ! 3) = Value [Node 1, BoolSchema False, Node 4]"
    by code_simp+
  have d: "default (heap (sanitizeParametersForGemini (fresh example_store) (Some 0)) ! 3)
      = Undefined"
    by code_simp
  note t = only_default_and_format_change[of "fresh example_store" "Some 0"]
  show ?thesis
    using t[THEN conjunct1] t[THEN conjunct2, rule_format, OF l(2)] l f d by simp
qed

text \<open>
  C8. The order in which the properties of an object are listed does not matter: on two
  stores that differ only in that order, a top-level call visits the same objects and
  leaves every object in the same state, its properties in the order it had.
\<close>

theorem property_order_irrelevant:
  assumes "reordered h h'"
  shows "visited (sanitize_call h' r) = visited (sanitize_call h r)
    \<and> (\<forall>i<length h. heap (sanitize_call h' r) ! i
          = (heap (sanitize_call h r) ! i)\<lparr>properties := properties (h' ! i)\<rparr>)"
proof -
  have len: "length h' = length h"
    using assms by (simp add: reordered_def list_all2_lengthD)
  have nth: "h' ! i = (h ! i)\<lparr>properties := properties (h' ! i)\<rparr>"
    "same_entries (properties (h ! i)) (properties (h' ! i))" if "i < length h" for i
    using assms that by (simp_all add: reordered_def list_all2_conv_all_nth)
  have "reach h' {} (set_option r) = reach h {} (set_option r)"
    using len reordered_children[OF nth] by (rule reach_children)
  then have r: "reach h' {} (set_option r) = reach h {} (set_option r)" .
  have "heap (sanitize_call h' r) ! i
      = (heap (sanitize_call h r) ! i)\<lparr>properties := properties (h' ! i)\<rparr>"
    if i: "i < length h" for i
  proof -
    have "sanitized (h' ! i) = (sanitized (h ! i))\<lparr>properties := properties (h' ! i)\<rparr>"
      using nth(1)[OF i] sanitized_properties by metis
    then show ?thesis
      using i len r nth(1)[OF i] by (simp add: call_heap)
  qed
  then show ?thesis
    using r by (simp add: call_visited)
qed

theorem property_order_irrelevant_witness:
  "reordered example_store example_reordered
   \<and> properties (example_reordered ! 0) \<noteq> properties (example_store ! 0)
   \<and> visited (sanitize_call example_reordered (Some 0)) = visited (sanitize_call example_store (Some 0))
   \<and> heap (sanitize_call example_reordered (Some 0)) ! 1
        = (heap (sanitize_call example_store (Some 0)) ! 1)\<lparr>properties := properties (example_reordered ! 1)\<rparr>"
proof -
  have 1: "reordered example_store example_reordered"
    by (simp add: reordered_def example_reordered_def example_store_def empty_schema_def)
  have 2: "properties (example_reordered ! 0) \<noteq> properties (example_store ! 0)"
    by (simp add: example_reordered_def example_store_def empty_schema_def)
  have 3: "1 < length example_store"
    by (simp add: example_store_def)
  note t = property_order_irrelevant[OF 1, of "Some 0"]
  show ?thesis
    using 1 2 t[THEN conjunct1] t[THEN conjunct2, rule_format, OF 3] by simp
qed

text \<open>
  C9. A call whose argument is already in the \<open>visited\<close> set returns the state it was
  given. In general a call enters exactly the objects reachable from its argument along
  paths that avoid \<open>visited\<close>; every other object, in particular a visited one and one
  reachable only through visited objects, is unchanged.
\<close>

theorem visited_objects_are_skipped:
  "(a \<in> visited s \<longrightarrow> sanitizeParametersForGemini s (Some a) = s)
   \<and> visited (sanitizeParametersForGemini s r) - visited s
       = reach (heap s) (visited s) (set_option r)
   \<and> (\<forall>i<length (heap s). i \<notin> reach (heap s) (visited s) (set_option r) \<longrightarrow>
         heap (sanitizeParametersForGemini s r) ! i = heap s ! i)
   \<and> (\<forall>i\<in>visited s. i < length (heap s) \<longrightarrow>
         heap (sanitizeParametersForGemini s r) ! i = heap s ! i)"
proof (intro conjI)
  show "a \<in> visited s \<longrightarrow> sanitizeParametersForGemini s (Some a) = s"
    by (simp add: sanitizeParametersForGemini.simps)
  show "visited (sanitizeParametersForGemini s r) - visited s
       = reach (heap s) (visited s) (set_option r)"
    by (rule sanitize_new)
  show "\<forall>i<length (heap s). i \<notin> reach (heap s) (visited s) (set_option r) \<longrightarrow>
         heap (sanitizeParametersForGemini s r) ! i = heap s ! i"
    by (simp add: sanitize_heap)
  show "\<forall>i\<in>visited s. i < length (heap s) \<longrightarrow>
         heap (sanitizeParametersForGemini s r) ! i = heap s ! i"
    using reach_bound[of _ "heap s" "visited s" "set_option r"] by (auto simp: sanitize_heap)
qed

theorem visited_objects_are_skipped_witness:
  "2 \<in> visited example_state
   \<and> sanitizeParametersForGemini example_state (Some 2) = example_state
   \<and> reach (heap example_state) (visited example_state) (set_option (Some 0)) = {0, 1}
   \<and> heap (sanitizeParametersForGemini example_state (Some 0)) ! 2 = example_store ! 2
   \<and> heap (sanitizeParametersForGemini example_state (Some 0)) ! 3 = example_store ! 3
   \<and> heap (sanitizeParametersForGemini example_state (Some 0)) ! 4 = example_store ! 4"
proof -
  note t = visited_objects_are_skipped[of 2 example_state "Some 0"]
  have v: "2 \<in> visited example_state"
    by (simp add: example_state_def)
  have 1: "sanitizeParametersForGemini example_state (Some 2) = example_state"
    using visited_objects_are_skipped[of 2 example_state "Some 2", THEN conjunct1] v by simp
  have "visited (sanitizeParametersForGemini example_state (Some 0)) - visited example_state
      = {0, 1}"
    by code_simp
  then have r: "reach (heap example_state) (visited example_state) (set_option (Some 0)) = {0, 1}"
    using t[THEN conjunct2, THEN conjunct1] by simp
  have l: "2 < length (heap example_state)" "3 < length (heap example_state)"
     "4 < length (heap example_state)"
    by (simp_all add: example_state_def example_store_def)
  have h: "heap example_state = example_store"
    by (simp add: example_state_def)
  note u = t[THEN conjunct2, THEN conjunct2, THEN conjunct1, rule_format]
  have n: "2 \<notin> reach (heap example_state) (visited example_state) (set_option (Some 0))"
    "3 \<notin> reach (heap example_state) (visited example_state) (set_option (Some 0))"
    "4 \<notin> reach (heap example_state) (visited example_state) (set_option (Some 0))"
    unfolding r by simp_all
  have "heap (sanitizeParametersForGemini example_state (Some 0)) ! 2 = example_store ! 2"
    "heap (sanitizeParametersForGemini example_state (Some 0)) ! 3 = example_store ! 3"
    "heap (sanitizeParametersForGemini example_state (Some 0)) ! 4 = example_store ! 4"
    using u[OF l(1) n(1)] u[OF l(2) n(2)] u[OF l(3) n(3)] unfolding h by simp_all
  then show ?thesis
    using v 1 r by simp
qed

text \<open>
  C10. The format of an object whose type is not STRING is never changed, whatever it
  holds.
\<close>

theorem other_kinds_keep_format:
  assumes "i < length (heap s)" and "type (heap s ! i) \<noteq> Value STRING"
  shows "format (heap (sanitizeParametersForGemini s r) ! i) = format (heap s ! i)"
  using assms by (simp add: sanitize_heap sanitized_def)

theorem other_kinds_keep_format_witness:
  "4 < length (heap (fresh example_store))
   \<and> type (heap (fresh example_store) ! 4) = Value NUMBER
   \<and> format (heap (sanitizeParametersForGemini (fresh example_store) (Some 0)) ! 4) = Value ''uuid''"
proof -
  have 1: "4 < length (heap (fresh example_store))"
    by code_simp
  have 2: "type (heap (fresh example_store) ! 4) = Value NUMBER"
    by code_simp
  then have 3: "type (heap (fresh example_store) ! 4) \<noteq> Value STRING"
    by simp
  have 4: "format (heap (fresh example_store) ! 4) = Value ''uuid''"
    by code_simp
  show ?thesis
    using other_kinds_keep_format[OF 1 3, of "Some 0"] 1 2 4 by simp
qed

end
